theory Spec2Isabelle
  imports Main "HOL-Library.Word"
begin

section \<open>Washer/dryer notifier: the vibration detector of Washer\_Dryer\_Notifier.ino\<close>

text \<open>
  The sketch runs on an ESP8266: \<open>int\<close> and \<open>long\<close> are 32 bits wide and
  \<open>millis()\<close> returns an \<open>unsigned long\<close>, a 32-bit counter of milliseconds that wraps
  around.  Timestamps are therefore \<open>32 word\<close>.  The field \<open>lastVibrationStateChange\<close> is
  declared \<open>long\<close>; it only ever holds a value of \<open>millis()\<close> and is only ever read as an
  operand of \<open>millis() - lastVibrationStateChange\<close>, where the usual arithmetic conversions
  turn it back into \<open>unsigned long\<close>, so the word is the stored bit pattern.

  \<open>vibrationState\<close>, \<open>previousVibrationValue\<close> and \<open>vibrationCounter\<close> are \<open>int\<close>
  variables, modelled as \<open>int\<close>: lemma \<open>reachable_bounds\<close> below shows that in every
  reachable state they stay between \<open>0\<close> and the threshold, so 32-bit overflow is never
  approached.
\<close>

subsection \<open>Configuration: the \<open>#define\<close>d constants\<close>

record config =
  VIBRATION_MONITORING_THRESHOLD :: int
  VIBRATION_STOPPED_TIME_DELAY_SECONDS :: int
  VIBRATION_COUNTER_RESET_DELAY_SECONDS :: int

text \<open>The values the sketch is compiled with (lines 51--53).\<close>

definition sketch_config :: config where
  "sketch_config =
     \<lparr>VIBRATION_MONITORING_THRESHOLD = 5000,
      VIBRATION_STOPPED_TIME_DELAY_SECONDS = 150,
      VIBRATION_COUNTER_RESET_DELAY_SECONDS = 180\<rparr>"

text \<open>
  \<open>SECONDS * 1000\<close> is an \<open>int\<close> product that the comparison with an \<open>unsigned long\<close>
  converts to \<open>unsigned long\<close>: the product modulo \<open>2 ^ 32\<close>.
\<close>

definition millis_of_seconds :: "int \<Rightarrow> 32 word" where
  "millis_of_seconds secs = word_of_int (secs * 1000)"

text \<open>
  Modelled from the spec: \<open>abs\<close> is not defined by the sketch but by the Arduino
  core (\<open>Arduino.h\<close>), which is not among the sources.  The spec speaks of the
  "absolute difference" of the counters; the Arduino language defines \<open>abs(x)\<close> as the
  macro \<open>((x)>0?(x):-(x))\<close>, evaluated at the type of its argument: at \<open>int\<close> for
  \<open>previousVibrationValue - 1\<close>, at \<open>unsigned long\<close> for
  \<open>millis() - lastVibrationStateChange\<close>.  The macro evaluates its argument twice,
  once for the test and once for the result; \<open>abs_macro\<close> takes the two values
  separately, since an argument that calls \<open>millis()\<close> need not give the same value
  both times.
\<close>

definition abs_macro :: "'a::{zero,ord,uminus} \<Rightarrow> 'a \<Rightarrow> 'a" where
  "abs_macro x_test x_result = (if x_test > 0 then x_result else - x_result)"

subsection \<open>The global variables (lines 59--65)\<close>

record detector =
  vibrationState :: int
  lastVibrationStateChange :: "32 word"
  previousVibrationValue :: int
  startedTime :: "32 word"
  vibrationCounter :: int

text \<open>
  \<open>setup()\<close>, lines 101--105, with \<open>t0\<close> the value \<open>millis()\<close> returns at line 102.
  (Serial and WiFi bring-up and the pin mode do not touch the detector's variables.)
\<close>

definition setup_init :: "32 word \<Rightarrow> detector" where
  "setup_init t0 =
     \<lparr>vibrationState = 1,
      lastVibrationStateChange = t0,
      previousVibrationValue = 0,
      startedTime = 0,
      vibrationCounter = 0\<rparr>"

subsection \<open>What one pass of \<open>loop()\<close> reads from the outside\<close>

text \<open>
  \<open>digitalRead(VIB_PIN)\<close> yields \<open>LOW = 0\<close> or \<open>HIGH = 1\<close>.  A pass calls \<open>millis()\<close> at
  line 152 (on an edge), twice at line 154 (the stale-counter check: the argument of
  \<open>abs\<close> is evaluated for the test and again for the result), and then either twice at
  line 162 (the stop check, likewise) or once at line 177 (the start time).  Every
  reading is a separate input; \<open>at_time\<close> is the pass in which all of them return the
  same value.
\<close>

record sample =
  pin :: bool
  millis_edge :: "32 word"
  millis_reset_test :: "32 word"
  millis_reset_result :: "32 word"
  millis_stop_test :: "32 word"
  millis_stop_result :: "32 word"
  millis_started :: "32 word"

definition digitalRead :: "bool \<Rightarrow> int" where
  "digitalRead high = (if high then 1 else 0)"

definition at_time :: "bool \<Rightarrow> 32 word \<Rightarrow> sample" where
  "at_time high now =
     \<lparr>pin = high, millis_edge = now,
      millis_reset_test = now, millis_reset_result = now,
      millis_stop_test = now, millis_stop_result = now,
      millis_started = now\<rparr>"

subsection \<open>Lifecycle events\<close>

text \<open>
  \<open>CycleStarted\<close> stands for the call \<open>washerDryerStarted()\<close> (line 178),
  \<open>CycleStopped\<close> for the call \<open>washerDryerNotification()\<close> (line 163).  The serial
  output and the \<open>delay(60*1000)\<close> that follow a transition change no variable of the
  detector; the delay only shows in the later values of \<open>millis()\<close>, which are inputs.
\<close>

datatype lifecycle = CycleStarted | CycleStopped

subsection \<open>\<open>checkForVibration\<close> (lines 143--158)\<close>

text \<open>Lines 146--153: the edge block.\<close>

definition checkForVibration_edge :: "detector \<Rightarrow> bool \<Rightarrow> 32 word \<Rightarrow> detector" where
  "checkForVibration_edge s high t =
     (if digitalRead high \<noteq> previousVibrationValue s then
        (let s1 = s\<lparr>previousVibrationValue :=
                       abs_macro (previousVibrationValue s - 1) (previousVibrationValue s - 1)\<rparr>;
             s2 = (if vibrationState s1 = 1
                   then s1\<lparr>vibrationCounter := vibrationCounter s1 + 1\<rparr> else s1)
         in s2\<lparr>lastVibrationStateChange := t\<rparr>)
      else s)"

text \<open>
  \<open>abs(millis() - lastVibrationStateChange)\<close>, as both timeout checks compute it:
  \<open>t_test\<close> is what \<open>millis()\<close> returns when the macro tests its argument, \<open>t_result\<close>
  what it returns when the macro evaluates the argument again for its result.
\<close>

definition elapsed :: "32 word \<Rightarrow> 32 word \<Rightarrow> 32 word \<Rightarrow> 32 word" where
  "elapsed t_test t_result since = abs_macro (t_test - since) (t_result - since)"

text \<open>Lines 154--157: the stale-counter block.\<close>

definition checkForVibration_reset ::
  "config \<Rightarrow> detector \<Rightarrow> 32 word \<Rightarrow> 32 word \<Rightarrow> detector" where
  "checkForVibration_reset cfg s t_test t_result =
     (if vibrationState s = 1 \<and>
         elapsed t_test t_result (lastVibrationStateChange s)
           > millis_of_seconds (VIBRATION_COUNTER_RESET_DELAY_SECONDS cfg)
      then s\<lparr>vibrationCounter := 0\<rparr> else s)"

definition checkForVibration ::
  "config \<Rightarrow> detector \<Rightarrow> bool \<Rightarrow> 32 word \<Rightarrow> 32 word \<Rightarrow> 32 word \<Rightarrow> detector" where
  "checkForVibration cfg s high t_edge t_test t_result =
     checkForVibration_reset cfg (checkForVibration_edge s high t_edge) t_test t_result"

subsection \<open>\<open>checkForVibrationStop\<close> (lines 159--170)\<close>

definition checkForVibrationStop ::
  "config \<Rightarrow> detector \<Rightarrow> 32 word \<Rightarrow> 32 word \<Rightarrow> detector \<times> lifecycle list" where
  "checkForVibrationStop cfg s t_test t_result =
     (if elapsed t_test t_result (lastVibrationStateChange s)
           > millis_of_seconds (VIBRATION_STOPPED_TIME_DELAY_SECONDS cfg)
      then (s\<lparr>vibrationState := 1, vibrationCounter := 0\<rparr>, [CycleStopped])
      else (s, []))"

subsection \<open>\<open>checkVibrationCounter\<close> (lines 172--183)\<close>

definition checkVibrationCounter ::
  "config \<Rightarrow> detector \<Rightarrow> 32 word \<Rightarrow> detector \<times> lifecycle list" where
  "checkVibrationCounter cfg s t =
     (if vibrationCounter s > VIBRATION_MONITORING_THRESHOLD cfg
      then (s\<lparr>vibrationCounter := 0, vibrationState := 0, startedTime := t\<rparr>,
            [CycleStarted])
      else (s, []))"

subsection \<open>\<open>loop\<close> (lines 185--193)\<close>

definition loop :: "config \<Rightarrow> detector \<Rightarrow> sample \<Rightarrow> detector \<times> lifecycle list" where
  "loop cfg s i =
     (let s1 = checkForVibration cfg s (pin i) (millis_edge i)
                 (millis_reset_test i) (millis_reset_result i)
      in if vibrationState s1 = 0
         then checkForVibrationStop cfg s1 (millis_stop_test i) (millis_stop_result i)
         else if vibrationState s1 = 1
         then checkVibrationCounter cfg s1 (millis_started i)
         else (s1, []))"

text \<open>Consecutive passes of \<open>loop()\<close>: the final state and every event emitted, in order.\<close>

fun run :: "config \<Rightarrow> detector \<Rightarrow> sample list \<Rightarrow> detector \<times> lifecycle list" where
  "run cfg s [] = (s, [])"
| "run cfg s (i # ins) =
     (let (s1, e1) = loop cfg s i; (s2, e2) = run cfg s1 ins in (s2, e1 @ e2))"

text \<open>The states the sketch can be in between two passes.\<close>

inductive_set reachable :: "config \<Rightarrow> detector set" for cfg :: config where
  init: "setup_init t0 \<in> reachable cfg"
| step: "s \<in> reachable cfg \<Longrightarrow> fst (loop cfg s i) \<in> reachable cfg"

subsection \<open>Notifications (lines 109--142)\<close>

text \<open>
  The two \<open>DataToMaker\<close> objects of lines 69--70.  The library is not part of the
  sketch; what \<open>connect()\<close> answers is an input: \<open>net d n\<close> is the answer of object \<open>d\<close>
  to the \<open>n\<close>-th call made by the running notification procedure (counted from \<open>0\<close>).
  What the procedure does is recorded as a trace of calls.
\<close>

datatype DataToMaker = event | event2

datatype io =
    Connect DataToMaker bool
  | SerialPrint string
  | SetValue DataToMaker nat string
  | Delay nat
  | Post DataToMaker

definition STARTED_MESSAGE :: string where
  "STARTED_MESSAGE = ''Washer started.''"

definition STOPPED_MESSAGE :: string where
  "STOPPED_MESSAGE = ''Washer is done.''"

text \<open>
  \<open>while (!d.connect()) { Serial.print("."); }\<close>.  The loop has no bound, so it is a
  partial function: \<open>None\<close> is the loop that never ends.
\<close>

partial_function (option) connect_loop ::
  "DataToMaker \<Rightarrow> (nat \<Rightarrow> bool) \<Rightarrow> nat \<Rightarrow> io list \<Rightarrow> io list option" where
  "connect_loop d answers n trace =
     (if answers n then Some (trace @ [Connect d True])
      else connect_loop d answers (Suc n) (trace @ [Connect d False, SerialPrint ''.'']))"

definition washerDryerNotification :: "(DataToMaker \<Rightarrow> nat \<Rightarrow> bool) \<Rightarrow> io list option" where
  "washerDryerNotification net =
     (case connect_loop event (net event) 0 [] of
        None \<Rightarrow> None
      | Some tr1 \<Rightarrow>
          (case connect_loop event2 (net event2) 0
                  (tr1 @ [SetValue event 1 STOPPED_MESSAGE, Delay 100, Post event]) of
             None \<Rightarrow> None
           | Some tr2 \<Rightarrow>
               Some (tr2 @ [SetValue event2 1 STOPPED_MESSAGE, Delay 100, Post event2])))"

definition washerDryerStarted :: "(DataToMaker \<Rightarrow> nat \<Rightarrow> bool) \<Rightarrow> io list option" where
  "washerDryerStarted net =
     (case connect_loop event (net event) 0 [] of
        None \<Rightarrow> None
      | Some tr1 \<Rightarrow>
          (case connect_loop event2 (net event2) 0
                  (tr1 @ [SetValue event 1 STARTED_MESSAGE, Delay 100, Post event]) of
             None \<Rightarrow> None
           | Some tr2 \<Rightarrow>
               Some (tr2 @ [SetValue event2 1 STARTED_MESSAGE, Delay 100, Post event2])))"

text \<open>The procedure \<open>loop()\<close> calls for each lifecycle event (lines 163 and 178).\<close>

fun notify :: "lifecycle \<Rightarrow> (DataToMaker \<Rightarrow> nat \<Rightarrow> bool) \<Rightarrow> io list option" where
  "notify CycleStarted net = washerDryerStarted net"
| "notify CycleStopped net = washerDryerNotification net"

fun message :: "lifecycle \<Rightarrow> string" where
  "message CycleStarted = STARTED_MESSAGE"
| "message CycleStopped = STOPPED_MESSAGE"

text \<open>\<open>n\<close> refused connection attempts on \<open>d\<close>, each followed by the printed dot.\<close>

definition refused :: "DataToMaker \<Rightarrow> nat \<Rightarrow> io list" where
  "refused d n = concat (replicate n [Connect d False, SerialPrint ''.''])"

subsection \<open>Auxiliary notions for the statements\<close>

text \<open>An event list that alternates, beginning with \<open>e\<close> if it begins at all.\<close>

fun other :: "lifecycle \<Rightarrow> lifecycle" where
  "other CycleStarted = CycleStopped"
| "other CycleStopped = CycleStarted"

fun alternates :: "lifecycle \<Rightarrow> lifecycle list \<Rightarrow> bool" where
  "alternates e [] = True"
| "alternates e (x # xs) = (x = e \<and> alternates (other e) xs)"

text \<open>The event the detector can emit next, by its state.\<close>

definition next_event :: "detector \<Rightarrow> lifecycle" where
  "next_event s = (if vibrationState s = 0 then CycleStopped else CycleStarted)"

text \<open>
  Modelled from the spec: \<open>millis()\<close> belongs to the Arduino core as well.  It is the
  "monotonic counter" of the spec, subject to "timer-overflow wraparound": for a true time
  of \<open>ms\<close> milliseconds since boot (a natural number of any size) it shows \<open>ms\<close>
  modulo \<open>2 ^ 32\<close>.
\<close>

definition millis :: "nat \<Rightarrow> 32 word" where
  "millis ms = of_nat ms"

text \<open>
  Readings that alternate: each differs from the one before it, the first from \<open>p\<close>.
\<close>

fun alternating :: "bool \<Rightarrow> sample list \<Rightarrow> bool" where
  "alternating p [] = True"
| "alternating p (i # ins) = (pin i \<noteq> p \<and> alternating (pin i) ins)"

subsection \<open>Concrete configurations and inputs\<close>

text \<open>The configuration of the test scenarios: threshold \<open>5\<close>, the sketch's two delays.\<close>

definition threshold5 :: config where
  "threshold5 =
     \<lparr>VIBRATION_MONITORING_THRESHOLD = 5,
      VIBRATION_STOPPED_TIME_DELAY_SECONDS = 150,
      VIBRATION_COUNTER_RESET_DELAY_SECONDS = 180\<rparr>"

text \<open>Six readings that alternate, one second apart, beginning with \<open>HIGH\<close>.\<close>

definition six_edges :: "sample list" where
  "six_edges =
     [at_time True 1000, at_time False 2000, at_time True 3000,
      at_time False 4000, at_time True 5000, at_time False 6000]"

text \<open>
  Passes in which the clock ticks between the two evaluations of \<open>millis()\<close> inside
  \<open>abs\<close>: the edge (if the reading is one) is stamped \<open>now\<close>, the macro's test reads
  \<open>now\<close> and its result reads \<open>now + 1\<close>; at line 154 in \<open>tick_at_reset\<close>, at
  line 162 in \<open>tick_at_stop\<close>.  The readings of a pass never go back in time.
\<close>

definition tick_at_reset :: "bool \<Rightarrow> 32 word \<Rightarrow> sample" where
  "tick_at_reset high now =
     \<lparr>pin = high, millis_edge = now,
      millis_reset_test = now, millis_reset_result = now + 1,
      millis_stop_test = now + 1, millis_stop_result = now + 1,
      millis_started = now + 1\<rparr>"

definition tick_at_stop :: "bool \<Rightarrow> 32 word \<Rightarrow> sample" where
  "tick_at_stop high now =
     \<lparr>pin = high, millis_edge = now,
      millis_reset_test = now, millis_reset_result = now,
      millis_stop_test = now, millis_stop_result = now + 1,
      millis_started = now\<rparr>"

text \<open>
  The six alternating readings again, one second apart, the clock ticking inside the
  third pass.
\<close>

definition six_edges_tick :: "sample list" where
  "six_edges_tick =
     [at_time True 1000, at_time False 2000, tick_at_reset True 3000,
      at_time False 4000, at_time True 5000, at_time False 6000]"

text \<open>
  A network on which \<open>event\<close> connects at the third attempt and \<open>event2\<close> at the
  second, and one on which \<open>event2\<close> never connects.
\<close>

definition flaky_net :: "DataToMaker \<Rightarrow> nat \<Rightarrow> bool" where
  "flaky_net d n = (case d of event \<Rightarrow> 2 \<le> n | event2 \<Rightarrow> 1 \<le> n)"

definition dead_net :: "DataToMaker \<Rightarrow> nat \<Rightarrow> bool" where
  "dead_net d n = (d = event)"

text \<open>What holds of the variables between two passes (lemma \<open>reachable_bounds\<close>).\<close>

definition bounds :: "config \<Rightarrow> detector \<Rightarrow> bool" where
  "bounds cfg s \<longleftrightarrow>
     (previousVibrationValue s = 0 \<or> previousVibrationValue s = 1) \<and>
     (vibrationState s = 0 \<or> vibrationState s = 1) \<and>
     0 \<le> vibrationCounter s \<and>
     (vibrationState s = 0 \<longrightarrow> vibrationCounter s = 0) \<and>
     vibrationCounter s \<le> max 0 (VIBRATION_MONITORING_THRESHOLD cfg)"

section \<open>Basic facts\<close>

text \<open>
  On the unsigned counter the macro is wrong in exactly one case: when the difference
  is \<open>0\<close> at the test and no longer \<open>0\<close> when it is evaluated again.
\<close>

lemma elapsed_same: "elapsed now now since = now - since"
  by (simp add: elapsed_def abs_macro_def word_gt_0)

lemma elapsed_after: "t_test \<noteq> since \<Longrightarrow> elapsed t_test t_result since = t_result - since"
  by (simp add: elapsed_def abs_macro_def word_gt_0)

lemma elapsed_tick: "elapsed since t_result since = - (t_result - since)"
  by (simp add: elapsed_def abs_macro_def)

lemmas tick_defs =
  checkForVibration_def checkForVibration_edge_def checkForVibration_reset_def
  checkForVibrationStop_def checkVibrationCounter_def loop_def

lemmas eval_defs =
  tick_defs setup_init_def at_time_def tick_at_reset_def tick_at_stop_def digitalRead_def
  elapsed_def abs_macro_def millis_of_seconds_def threshold5_def sketch_config_def
  six_edges_def six_edges_tick_def Let_def

subsection \<open>The variables stay in range\<close>

lemma bounds_setup: "bounds cfg (setup_init t0)"
  by (simp add: bounds_def setup_init_def)

lemma bounds_loop: "bounds cfg s \<Longrightarrow> bounds cfg (fst (loop cfg s i))"
  by (auto simp: bounds_def tick_defs Let_def abs_macro_def)

lemma reachable_bounds: "s \<in> reachable cfg \<Longrightarrow> bounds cfg s"
  by (induction rule: reachable.induct) (simp_all add: bounds_setup bounds_loop)

subsection \<open>Runs\<close>

lemma run_reachable: "s \<in> reachable cfg \<Longrightarrow> fst (run cfg s ins) \<in> reachable cfg"
proof (induction ins arbitrary: s)
  case Nil
  then show ?case by simp
next
  case (Cons i ins)
  from Cons.prems have "fst (loop cfg s i) \<in> reachable cfg"
    by (rule reachable.step)
  from Cons.IH[OF this] show ?case
    by (simp add: split_beta Let_def)
qed

lemma run_append:
  "run cfg s (xs @ ys) =
     (let (s1, e1) = run cfg s xs; (s2, e2) = run cfg s1 ys in (s2, e1 @ e2))"
  by (induction xs arbitrary: s) (simp_all add: split_beta Let_def)

lemma run_snoc_state:
  "fst (run cfg s (xs @ [i])) = fst (loop cfg (fst (run cfg s xs)) i)"
  by (simp add: run_append split_beta)

subsection \<open>One pass, by detector state\<close>

lemma checkForVibration_state [simp]:
  "vibrationState (checkForVibration cfg s high t1 t2 t3) = vibrationState s"
  by (simp add: checkForVibration_def checkForVibration_edge_def
      checkForVibration_reset_def Let_def)

lemma loop_accumulating:
  "vibrationState s = 1 \<Longrightarrow>
     loop cfg s i =
       checkVibrationCounter cfg
         (checkForVibration cfg s (pin i) (millis_edge i)
            (millis_reset_test i) (millis_reset_result i))
         (millis_started i)"
  by (simp add: loop_def Let_def)

lemma loop_monitoring:
  "vibrationState s = 0 \<Longrightarrow>
     loop cfg s i =
       checkForVibrationStop cfg
         (checkForVibration cfg s (pin i) (millis_edge i)
            (millis_reset_test i) (millis_reset_result i))
         (millis_stop_test i) (millis_stop_result i)"
  by (simp add: loop_def Let_def)

lemma digitalRead_neq: "digitalRead a \<noteq> digitalRead b \<longleftrightarrow> a \<noteq> b"
  by (simp add: digitalRead_def)

lemma edge_timestamp:
  "lastVibrationStateChange (checkForVibration_edge s high t) =
     (if digitalRead high \<noteq> previousVibrationValue s then t else lastVibrationStateChange s)"
  by (simp add: checkForVibration_edge_def Let_def)

text \<open>The threshold test of line 174 is strict, and it alone starts a cycle.\<close>

lemma start_step:
  assumes "vibrationState s = 1"
  shows "(vibrationState (fst (loop cfg s i)) = 0 \<longleftrightarrow>
            VIBRATION_MONITORING_THRESHOLD cfg
              < vibrationCounter (checkForVibration cfg s (pin i) (millis_edge i)
                  (millis_reset_test i) (millis_reset_result i))) \<and>
         (vibrationCounter (checkForVibration cfg s (pin i) (millis_edge i)
              (millis_reset_test i) (millis_reset_result i))
              = VIBRATION_MONITORING_THRESHOLD cfg \<longrightarrow>
            vibrationState (fst (loop cfg s i)) = 1 \<and> snd (loop cfg s i) = []) \<and>
         (vibrationState (fst (loop cfg s i)) = 0 \<longrightarrow>
            vibrationCounter (fst (loop cfg s i)) = 0 \<and> snd (loop cfg s i) = [CycleStarted])"
  using assms by (simp add: loop_accumulating checkVibrationCounter_def)

text \<open>
  When both readings of line 154 are later than the delay, the test reading is not the
  timestamp, the macro returns the second difference, and the counter is zeroed.
\<close>

lemma late_fires:
  assumes "d < t_test - since" "d < t_result - since"
  shows "d < elapsed t_test t_result since"
proof -
  from assms(1) have "t_test - since \<noteq> 0"
    by (metis word_not_simps(1))
  then have "t_test \<noteq> since"
    by simp
  with assms(2) show ?thesis
    by (simp add: elapsed_after)
qed

lemma reset_step:
  assumes "vibrationState s = 1" "0 \<le> VIBRATION_MONITORING_THRESHOLD cfg"
    "millis_of_seconds (VIBRATION_COUNTER_RESET_DELAY_SECONDS cfg)
       < millis_reset_test i
           - lastVibrationStateChange (checkForVibration_edge s (pin i) (millis_edge i))"
    "millis_of_seconds (VIBRATION_COUNTER_RESET_DELAY_SECONDS cfg)
       < millis_reset_result i
           - lastVibrationStateChange (checkForVibration_edge s (pin i) (millis_edge i))"
  shows "vibrationCounter (fst (loop cfg s i)) = 0 \<and> vibrationState (fst (loop cfg s i)) = 1 \<and>
         snd (loop cfg s i) = []"
proof -
  let ?e = "checkForVibration_edge s (pin i) (millis_edge i)"
  have st: "vibrationState ?e = 1"
    using assms(1) by (simp add: checkForVibration_edge_def Let_def)
  have "millis_of_seconds (VIBRATION_COUNTER_RESET_DELAY_SECONDS cfg)
       < elapsed (millis_reset_test i) (millis_reset_result i) (lastVibrationStateChange ?e)"
    by (rule late_fires[OF assms(3) assms(4)])
  with st have "checkForVibration cfg s (pin i) (millis_edge i)
      (millis_reset_test i) (millis_reset_result i) = ?e\<lparr>vibrationCounter := 0\<rparr>"
    by (simp add: checkForVibration_def checkForVibration_reset_def)
  with st assms(1,2) show ?thesis
    by (simp add: loop_accumulating checkVibrationCounter_def)
qed

lemma no_reset_outside_accumulating:
  "vibrationState s \<noteq> 1 \<Longrightarrow> checkForVibration_reset cfg s t_test t_result = s"
  "vibrationState s \<noteq> 1 \<Longrightarrow>
     checkForVibration cfg s high t1 t_test t_result = checkForVibration_edge s high t1"
  by (simp_all add: checkForVibration_def checkForVibration_reset_def
      checkForVibration_edge_def Let_def)

lemma edge_block:
  assumes "bounds cfg s"
  shows "digitalRead high \<noteq> previousVibrationValue s \<Longrightarrow>
           previousVibrationValue (checkForVibration_edge s high t) = 1 - previousVibrationValue s \<and>
           previousVibrationValue (checkForVibration_edge s high t) = digitalRead high \<and>
           lastVibrationStateChange (checkForVibration_edge s high t) = t \<and>
           vibrationCounter (checkForVibration_edge s high t) =
             (if vibrationState s = 1 then vibrationCounter s + 1 else vibrationCounter s) \<and>
           vibrationState (checkForVibration_edge s high t) = vibrationState s \<and>
           startedTime (checkForVibration_edge s high t) = startedTime s"
    and "digitalRead high = previousVibrationValue s \<Longrightarrow> checkForVibration_edge s high t = s"
  using assms
  by (auto simp: checkForVibration_edge_def bounds_def Let_def digitalRead_def abs_macro_def)

lemma loop_level:
  "previousVibrationValue (fst (loop cfg s i)) =
     previousVibrationValue (checkForVibration_edge s (pin i) (millis_edge i))"
  "lastVibrationStateChange (fst (loop cfg s i)) =
     lastVibrationStateChange (checkForVibration_edge s (pin i) (millis_edge i))"
  by (simp_all add: loop_def checkForVibration_def checkForVibration_reset_def
      checkForVibrationStop_def checkVibrationCounter_def Let_def)

lemma loop_stored_level:
  "bounds cfg s \<Longrightarrow> previousVibrationValue (fst (loop cfg s i)) = digitalRead (pin i)"
  using edge_block[of cfg s "pin i" "millis_edge i"]
  by (cases "digitalRead (pin i) = previousVibrationValue s") (simp_all add: loop_level)

lemma loop_count_grows:
  assumes "bounds cfg s" "vibrationCounter s < vibrationCounter (fst (loop cfg s i))"
  shows "vibrationState s = 1 \<and> digitalRead (pin i) \<noteq> previousVibrationValue s \<and>
         vibrationCounter (fst (loop cfg s i)) = vibrationCounter s + 1"
  using assms
  by (auto simp: bounds_def tick_defs Let_def split: if_splits)

lemma run_stored_level:
  assumes "s \<in> reachable cfg" "k < length ins"
  shows "previousVibrationValue (fst (run cfg s (take (Suc k) ins))) = digitalRead (pin (ins ! k))"
proof -
  have "fst (run cfg s (take k ins)) \<in> reachable cfg"
    by (rule run_reachable[OF assms(1)])
  then have "bounds cfg (fst (run cfg s (take k ins)))"
    by (rule reachable_bounds)
  then show ?thesis
    using assms(2) by (simp add: take_Suc_conv_app_nth run_snoc_state loop_stored_level)
qed

lemma run_edge_count:
  assumes "s \<in> reachable cfg" "Suc k < length ins"
  shows "vibrationCounter
           (checkForVibration_edge (fst (run cfg s (take (Suc k) ins))) (pin (ins ! Suc k)) t) =
         vibrationCounter (fst (run cfg s (take (Suc k) ins))) +
           (if vibrationState (fst (run cfg s (take (Suc k) ins))) = 1 \<and>
               pin (ins ! Suc k) \<noteq> pin (ins ! k)
            then 1 else 0)"
proof -
  let ?sk = "fst (run cfg s (take (Suc k) ins))"
  have b: "bounds cfg ?sk"
    by (rule reachable_bounds[OF run_reachable[OF assms(1)]])
  from assms(2) have lev: "previousVibrationValue ?sk = digitalRead (pin (ins ! k))"
    by (intro run_stored_level[OF assms(1)]) simp
  show ?thesis
  proof (cases "pin (ins ! Suc k) = pin (ins ! k)")
    case True
    with lev have "checkForVibration_edge ?sk (pin (ins ! Suc k)) t = ?sk"
      by (intro edge_block(2)[OF b]) simp
    with True show ?thesis by simp
  next
    case False
    with lev have "digitalRead (pin (ins ! Suc k)) \<noteq> previousVibrationValue ?sk"
      by (simp add: digitalRead_neq)
    from edge_block(1)[OF b this, of t] False show ?thesis by simp
  qed
qed

subsection \<open>Counting edges\<close>

text \<open>
  An edge pass while accumulating, with room below the threshold: the count goes up by
  one or is zeroed by line 154, and no cycle starts.
\<close>

lemma edge_pass_accumulating:
  assumes "vibrationState s = 1" "previousVibrationValue s = digitalRead p" "pin i \<noteq> p"
    "0 \<le> vibrationCounter s" "vibrationCounter s + 1 \<le> VIBRATION_MONITORING_THRESHOLD cfg"
  shows "vibrationState (fst (loop cfg s i)) = 1 \<and>
         0 \<le> vibrationCounter (fst (loop cfg s i)) \<and>
         vibrationCounter (fst (loop cfg s i)) \<le> vibrationCounter s + 1 \<and>
         previousVibrationValue (fst (loop cfg s i)) = digitalRead (pin i) \<and>
         lastVibrationStateChange (fst (loop cfg s i)) = millis_edge i \<and>
         snd (loop cfg s i) = []"
  using assms
  by (cases p; cases "pin i")
     (simp_all add: loop_accumulating checkForVibration_def checkForVibration_edge_def
      checkForVibration_reset_def checkVibrationCounter_def Let_def digitalRead_def
      abs_macro_def[where 'a=int])

lemma edges_stay_accumulating:
  assumes "vibrationState s = 1" "previousVibrationValue s = digitalRead p"
    "alternating p ins" "0 \<le> vibrationCounter s"
    "vibrationCounter s + int (length ins) \<le> VIBRATION_MONITORING_THRESHOLD cfg"
  shows "vibrationState (fst (run cfg s ins)) = 1 \<and>
         0 \<le> vibrationCounter (fst (run cfg s ins)) \<and>
         vibrationCounter (fst (run cfg s ins)) \<le> vibrationCounter s + int (length ins) \<and>
         previousVibrationValue (fst (run cfg s ins)) = digitalRead (last (p # map pin ins)) \<and>
         lastVibrationStateChange (fst (run cfg s ins))
           = last (lastVibrationStateChange s # map millis_edge ins) \<and>
         snd (run cfg s ins) = []"
  using assms
proof (induction ins arbitrary: s p)
  case Nil
  then show ?case by simp
next
  case (Cons i ins)
  let ?s1 = "fst (loop cfg s i)"
  have one: "vibrationState ?s1 = 1 \<and>
         0 \<le> vibrationCounter ?s1 \<and>
         vibrationCounter ?s1 \<le> vibrationCounter s + 1 \<and>
         previousVibrationValue ?s1 = digitalRead (pin i) \<and>
         lastVibrationStateChange ?s1 = millis_edge i \<and>
         snd (loop cfg s i) = []"
    by (rule edge_pass_accumulating[where p = p]) (use Cons.prems in auto)
  have rest: "vibrationState (fst (run cfg ?s1 ins)) = 1 \<and>
         0 \<le> vibrationCounter (fst (run cfg ?s1 ins)) \<and>
         vibrationCounter (fst (run cfg ?s1 ins)) \<le> vibrationCounter ?s1 + int (length ins) \<and>
         previousVibrationValue (fst (run cfg ?s1 ins)) = digitalRead (last (pin i # map pin ins)) \<and>
         lastVibrationStateChange (fst (run cfg ?s1 ins))
           = last (lastVibrationStateChange ?s1 # map millis_edge ins) \<and>
         snd (run cfg ?s1 ins) = []"
    by (rule Cons.IH) (use Cons.prems one in auto)
  from one rest show ?case
    by (auto simp: split_beta)
qed

lemma alternating_take: "alternating p ins \<Longrightarrow> alternating p (take k ins)"
proof (induction ins arbitrary: p k)
  case Nil
  then show ?case by simp
next
  case (Cons i ins)
  then show ?case by (cases k) auto
qed

text \<open>
  As many alternating readings as the threshold, then a pass without an edge whose two
  readings of line 154 are both later than the delay after the last edge.
\<close>

lemma scenario_stale:
  assumes thr: "VIBRATION_MONITORING_THRESHOLD cfg = int n"
    and alt: "alternating False ins"
    and len: "length ins = n"
    and idle: "pin j = last (False # map pin ins)"
    and late: "millis_of_seconds (VIBRATION_COUNTER_RESET_DELAY_SECONDS cfg)
                 < millis_reset_test j - last (t0 # map millis_edge ins)"
              "millis_of_seconds (VIBRATION_COUNTER_RESET_DELAY_SECONDS cfg)
                 < millis_reset_result j - last (t0 # map millis_edge ins)"
  shows "(\<forall>k \<le> n.
            vibrationState (fst (run cfg (setup_init t0) (take k ins))) = 1 \<and>
            snd (run cfg (setup_init t0) (take k ins)) = []) \<and>
         vibrationState (fst (run cfg (setup_init t0) (ins @ [j]))) = 1 \<and>
         vibrationCounter (fst (run cfg (setup_init t0) (ins @ [j]))) = 0 \<and>
         snd (run cfg (setup_init t0) (ins @ [j])) = []"
proof -
  let ?s0 = "setup_init t0"
  let ?sn = "fst (run cfg ?s0 ins)"
  have s0: "vibrationState ?s0 = 1" "previousVibrationValue ?s0 = digitalRead False"
    "vibrationCounter ?s0 = 0" "lastVibrationStateChange ?s0 = t0"
    by (simp_all add: setup_init_def digitalRead_def)
  have pre: "vibrationState (fst (run cfg ?s0 (take k ins))) = 1 \<and>
         0 \<le> vibrationCounter (fst (run cfg ?s0 (take k ins))) \<and>
         vibrationCounter (fst (run cfg ?s0 (take k ins)))
           \<le> vibrationCounter ?s0 + int (length (take k ins)) \<and>
         previousVibrationValue (fst (run cfg ?s0 (take k ins)))
           = digitalRead (last (False # map pin (take k ins))) \<and>
         lastVibrationStateChange (fst (run cfg ?s0 (take k ins)))
           = last (lastVibrationStateChange ?s0 # map millis_edge (take k ins)) \<and>
         snd (run cfg ?s0 (take k ins)) = []" for k
    by (rule edges_stay_accumulating[OF s0(1) s0(2) alternating_take[OF alt]])
       (use len thr s0(3) in simp_all)
  from pre have first: "\<forall>k \<le> n.
            vibrationState (fst (run cfg ?s0 (take k ins))) = 1 \<and>
            snd (run cfg ?s0 (take k ins)) = []"
    by simp
  from pre[of n] len s0 idle have sn: "vibrationState ?sn = 1"
    "previousVibrationValue ?sn = digitalRead (pin j)"
    "lastVibrationStateChange ?sn = last (t0 # map millis_edge ins)"
    "snd (run cfg ?s0 ins) = []"
    by simp_all
  have e: "checkForVibration_edge ?sn (pin j) (millis_edge j) = ?sn"
    using sn(2) by (simp add: checkForVibration_edge_def)
  have "vibrationCounter (fst (loop cfg ?sn j)) = 0 \<and> vibrationState (fst (loop cfg ?sn j)) = 1 \<and>
         snd (loop cfg ?sn j) = []"
    by (rule reset_step[OF sn(1)]) (use thr late sn(3) e in simp_all)
  with sn first show ?thesis
    by (simp add: run_append split_beta)
qed

subsection \<open>The order of the events\<close>

lemma loop_next_event:
  "(snd (loop cfg s i) = [] \<and> next_event (fst (loop cfg s i)) = next_event s) \<or>
   (snd (loop cfg s i) = [next_event s] \<and> next_event (fst (loop cfg s i)) = other (next_event s))"
  by (simp add: tick_defs next_event_def Let_def)

lemma run_alternates: "alternates (next_event s) (snd (run cfg s ins))"
proof (induction ins arbitrary: s)
  case Nil
  then show ?case by simp
next
  case (Cons i ins)
  from loop_next_event[of cfg s i] Cons.IH[of "fst (loop cfg s i)"]
  show ?case by (auto simp: split_beta)
qed

lemma alternates_hd: "alternates e evs \<Longrightarrow> evs \<noteq> [] \<Longrightarrow> hd evs = e"
  by (cases evs) simp_all

lemma alternates_nth:
  "alternates e evs \<Longrightarrow> Suc k < length evs \<Longrightarrow> evs ! Suc k = other (evs ! k)"
proof (induction evs arbitrary: e k)
  case Nil
  then show ?case by simp
next
  case (Cons x xs)
  show ?case
  proof (cases k)
    case 0
    with Cons.prems show ?thesis by (cases xs) simp_all
  next
    case (Suc m)
    with Cons.prems Cons.IH[of "other e" m] show ?thesis by simp
  qed
qed

lemma other_neq: "other e \<noteq> e"
  by (cases e) simp_all

subsection \<open>Elapsed time on a counter that wraps\<close>

text \<open>
  For true times \<open>T0 < T1\<close> and \<open>T2\<close> less than \<open>2 ^ 32\<close> ms after \<open>T0\<close>, with the
  counter not back at the same value at the test, the macro returns the true time
  elapsed at its second reading, however often the counter has wrapped.
\<close>

lemma unat_elapsed_millis:
  assumes "T0 < T1" "T1 - T0 < 2 ^ 32" "T0 \<le> T2" "T2 - T0 < 2 ^ 32"
  shows "unat (elapsed (millis T1) (millis T2) (millis T0)) = T2 - T0"
proof -
  have d1: "(of_nat T1 :: 32 word) - of_nat T0 = of_nat (T1 - T0)"
    using assms(1) by simp
  have "unat (of_nat (T1 - T0) :: 32 word) = T1 - T0"
    using assms(2) by (simp add: unat_of_nat)
  with assms(1) have "(of_nat (T1 - T0) :: 32 word) \<noteq> 0"
    by (metis unat_0 zero_less_diff less_numeral_extra(3))
  with d1 have "(of_nat T1 :: 32 word) - of_nat T0 \<noteq> 0"
    by metis
  then have "(of_nat T1 :: 32 word) \<noteq> of_nat T0"
    by auto
  then have ne: "millis T1 \<noteq> millis T0"
    by (simp add: millis_def)
  have "(of_nat T2 :: 32 word) - of_nat T0 = of_nat (T2 - T0)"
    using assms(3) by simp
  moreover have "unat (of_nat (T2 - T0) :: 32 word) = T2 - T0"
    using assms(4) by (simp add: unat_of_nat)
  ultimately show ?thesis
    using ne by (simp add: elapsed_after millis_def)
qed

subsection \<open>The connect loop\<close>

lemma connect_loop_returns:
  "answers (n + k) \<Longrightarrow> \<forall>j<k. \<not> answers (n + j) \<Longrightarrow>
     connect_loop d answers n trace = Some (trace @ refused d k @ [Connect d True])"
proof (induction k arbitrary: n trace)
  case 0
  then show ?case
    by (simp add: connect_loop.simps refused_def)
next
  case (Suc k)
  from Suc.prems(2) have no: "\<not> answers n"
    by (metis add.right_neutral zero_less_Suc)
  have "connect_loop d answers (Suc n) (trace @ [Connect d False, SerialPrint ''.'']) =
      Some ((trace @ [Connect d False, SerialPrint ''.'']) @ refused d k @ [Connect d True])"
  proof (rule Suc.IH)
    show "answers (Suc n + k)" using Suc.prems(1) by simp
    show "\<forall>j<k. \<not> answers (Suc n + j)"
      using Suc.prems(2) by (metis Suc_less_eq add_Suc_shift)
  qed
  with no show ?case
    by (subst connect_loop.simps) (simp add: refused_def)
qed

lemma connect_loop_Some_answers:
  assumes "connect_loop d answers n trace = Some y"
  shows "\<exists>k. answers (n + k)"
proof (rule connect_loop.raw_induct[where P = "\<lambda>_ a m _ _. \<exists>k. a (m + k)", OF _ assms])
  fix f d a m tr y
  assume IH: "\<And>d a m tr y. f d a m tr = Some y \<Longrightarrow> \<exists>k. a (m + k)"
    and eq: "(if a m then Some (tr @ [Connect d True])
              else f d a (Suc m) (tr @ [Connect d False, SerialPrint ''.''])) = Some y"
  show "\<exists>k. a (m + k)"
  proof (cases "a m")
    case True
    then have "a (m + 0)" by simp
    then show ?thesis by blast
  next
    case False
    with eq have "f d a (Suc m) (tr @ [Connect d False, SerialPrint ''.'']) = Some y"
      by simp
    then have "\<exists>k. a (Suc m + k)" by (rule IH)
    then obtain k where "a (Suc m + k)" ..
    then have "a (m + Suc k)" by simp
    then show ?thesis by blast
  qed
qed

lemma first_answer:
  "\<exists>k. answers (k :: nat) \<Longrightarrow> \<exists>k. answers k \<and> (\<forall>j<k. \<not> answers j)"
  using exists_least_iff[of answers] by blast

lemma connect_loop_None_iff:
  "connect_loop d answers 0 trace = None \<longleftrightarrow> (\<forall>k. \<not> answers k)"
proof
  assume n: "connect_loop d answers 0 trace = None"
  show "\<forall>k. \<not> answers k"
  proof (rule ccontr)
    assume "\<not> (\<forall>k. \<not> answers k)"
    then have "\<exists>k. answers k" by simp
    from first_answer[OF this] obtain k where "answers k" "\<forall>j<k. \<not> answers j"
      by blast
    then have "connect_loop d answers 0 trace = Some (trace @ refused d k @ [Connect d True])"
      by (intro connect_loop_returns) simp_all
    with n show False by simp
  qed
next
  assume "\<forall>k. \<not> answers k"
  then show "connect_loop d answers 0 trace = None"
    using connect_loop_Some_answers[of d answers 0 trace] by (cases "connect_loop d answers 0 trace") auto
qed

lemma started_returns:
  assumes "net event n1" "\<forall>j<n1. \<not> net event j" "net event2 n2" "\<forall>j<n2. \<not> net event2 j"
  shows "washerDryerStarted net =
     Some (refused event n1 @
           [Connect event True, SetValue event 1 STARTED_MESSAGE, Delay 100, Post event] @
           refused event2 n2 @
           [Connect event2 True, SetValue event2 1 STARTED_MESSAGE, Delay 100, Post event2])"
proof -
  have 1: "connect_loop event (net event) 0 [] = Some ([] @ refused event n1 @ [Connect event True])"
    by (rule connect_loop_returns) (use assms in simp_all)
  have 2: "connect_loop event2 (net event2) 0 tr = Some (tr @ refused event2 n2 @ [Connect event2 True])"
    for tr
    by (rule connect_loop_returns) (use assms in simp_all)
  show ?thesis
    by (simp add: washerDryerStarted_def 1 2)
qed

lemma stopped_returns:
  assumes "net event n1" "\<forall>j<n1. \<not> net event j" "net event2 n2" "\<forall>j<n2. \<not> net event2 j"
  shows "washerDryerNotification net =
     Some (refused event n1 @
           [Connect event True, SetValue event 1 STOPPED_MESSAGE, Delay 100, Post event] @
           refused event2 n2 @
           [Connect event2 True, SetValue event2 1 STOPPED_MESSAGE, Delay 100, Post event2])"
proof -
  have 1: "connect_loop event (net event) 0 [] = Some ([] @ refused event n1 @ [Connect event True])"
    by (rule connect_loop_returns) (use assms in simp_all)
  have 2: "connect_loop event2 (net event2) 0 tr = Some (tr @ refused event2 n2 @ [Connect event2 True])"
    for tr
    by (rule connect_loop_returns) (use assms in simp_all)
  show ?thesis
    by (simp add: washerDryerNotification_def 1 2)
qed

lemma connect_loop_Some_ex:
  "connect_loop d answers 0 trace = Some y \<Longrightarrow> \<exists>k. answers k"
  using connect_loop_Some_answers[of d answers 0 trace y] by simp

lemma notify_blocks:
  "notify e net = None \<longleftrightarrow> (\<forall>n. \<not> net event n) \<or> (\<forall>n. \<not> net event2 n)"
  by (cases e)
     (auto simp: washerDryerStarted_def washerDryerNotification_def connect_loop_None_iff
       split: option.splits dest: connect_loop_Some_ex)

subsection \<open>The scenario states\<close>

lemma six_edges_state:
  "fst (run threshold5 (setup_init 0) six_edges) =
     \<lparr>vibrationState = 0, lastVibrationStateChange = 6000, previousVibrationValue = 0,
      startedTime = 6000, vibrationCounter = 0\<rparr>"
  by (simp add: eval_defs)

lemma five_edges_state:
  "fst (run threshold5 (setup_init 0) (take 5 six_edges)) =
     \<lparr>vibrationState = 1, lastVibrationStateChange = 5000, previousVibrationValue = 1,
      startedTime = 0, vibrationCounter = 5\<rparr>"
  by (simp add: eval_defs)

section \<open>The claims\<close>



text \<open>
  C3.  The edge block of \<open>checkForVibration\<close> (lines 146--153), run in every pass: if the
  reading differs from the stored level, the stored level is flipped, the last-transition
  timestamp becomes the current time, and the count is incremented exactly when the
  detector is Accumulating; if the reading equals the stored level the block changes
  nothing.  Nothing else in a pass writes the stored level or the timestamp.  The count
  grows over a whole pass only if the detector was Accumulating and the reading differed
  from the stored level, and then by one.  Over every sequence of readings, the stored
  level is the preceding reading, so the edge block increments the count exactly when
  the detector is Accumulating and the reading differs from the reading of the pass
  before, and the count grows over a pass only then.
  (Later in the same pass the stale-counter check or a transition may zero the count.)
\<close>

theorem C3_edge_tracking:
  "(\<forall>s \<in> reachable cfg.
      (digitalRead high \<noteq> previousVibrationValue s \<longrightarrow>
         previousVibrationValue (checkForVibration_edge s high t) = 1 - previousVibrationValue s \<and>
         lastVibrationStateChange (checkForVibration_edge s high t) = t \<and>
         vibrationCounter (checkForVibration_edge s high t) =
           (if vibrationState s = 1 then vibrationCounter s + 1 else vibrationCounter s)) \<and>
      (digitalRead high = previousVibrationValue s \<longrightarrow> checkForVibration_edge s high t = s) \<and>
      previousVibrationValue (fst (loop cfg s i)) =
        previousVibrationValue (checkForVibration_edge s (pin i) (millis_edge i)) \<and>
      lastVibrationStateChange (fst (loop cfg s i)) =
        lastVibrationStateChange (checkForVibration_edge s (pin i) (millis_edge i)) \<and>
      (vibrationCounter s < vibrationCounter (fst (loop cfg s i)) \<longrightarrow>
         vibrationState s = 1 \<and> digitalRead (pin i) \<noteq> previousVibrationValue s \<and>
         vibrationCounter (fst (loop cfg s i)) = vibrationCounter s + 1) \<and>
      (\<forall>k. Suc k < length ins \<and>
           vibrationCounter (fst (run cfg s (take (Suc k) ins)))
             < vibrationCounter (fst (run cfg s (take (Suc (Suc k)) ins))) \<longrightarrow>
           vibrationState (fst (run cfg s (take (Suc k) ins))) = 1 \<and>
           pin (ins ! Suc k) \<noteq> pin (ins ! k)) \<and>
      (\<forall>k. Suc k < length ins \<longrightarrow>
           vibrationCounter
             (checkForVibration_edge (fst (run cfg s (take (Suc k) ins)))
                (pin (ins ! Suc k)) t) =
           vibrationCounter (fst (run cfg s (take (Suc k) ins))) +
             (if vibrationState (fst (run cfg s (take (Suc k) ins))) = 1 \<and>
                 pin (ins ! Suc k) \<noteq> pin (ins ! k)
              then 1 else 0)))"
proof (intro ballI conjI impI allI)
  fix s assume r: "s \<in> reachable cfg"
  note b = reachable_bounds[OF r]
  {
    assume e: "digitalRead high \<noteq> previousVibrationValue s"
    from edge_block(1)[OF b e, of t]
    show "previousVibrationValue (checkForVibration_edge s high t) = 1 - previousVibrationValue s"
      and "lastVibrationStateChange (checkForVibration_edge s high t) = t"
      and "vibrationCounter (checkForVibration_edge s high t) =
           (if vibrationState s = 1 then vibrationCounter s + 1 else vibrationCounter s)"
      by simp_all
  }
  show "digitalRead high = previousVibrationValue s \<Longrightarrow> checkForVibration_edge s high t = s"
    by (rule edge_block(2)[OF b])
  show "previousVibrationValue (fst (loop cfg s i)) =
        previousVibrationValue (checkForVibration_edge s (pin i) (millis_edge i))"
    and "lastVibrationStateChange (fst (loop cfg s i)) =
        lastVibrationStateChange (checkForVibration_edge s (pin i) (millis_edge i))"
    by (rule loop_level)+
  {
    assume g: "vibrationCounter s < vibrationCounter (fst (loop cfg s i))"
    from loop_count_grows[OF b g]
    show "vibrationState s = 1" and "digitalRead (pin i) \<noteq> previousVibrationValue s"
      and "vibrationCounter (fst (loop cfg s i)) = vibrationCounter s + 1"
      by simp_all
  }
  {
    fix k
    assume a: "Suc k < length ins \<and>
           vibrationCounter (fst (run cfg s (take (Suc k) ins)))
             < vibrationCounter (fst (run cfg s (take (Suc (Suc k)) ins)))"
    let ?sk = "fst (run cfg s (take (Suc k) ins))"
    have rk: "?sk \<in> reachable cfg"
      by (rule run_reachable[OF r])
    from a have nxt: "fst (run cfg s (take (Suc (Suc k)) ins)) = fst (loop cfg ?sk (ins ! Suc k))"
      by (simp add: take_Suc_conv_app_nth[of "Suc k"] run_snoc_state)
    from a have lev: "previousVibrationValue ?sk = digitalRead (pin (ins ! k))"
      by (intro run_stored_level[OF r]) simp
    from a nxt have "vibrationCounter ?sk < vibrationCounter (fst (loop cfg ?sk (ins ! Suc k)))"
      by simp
    from loop_count_grows[OF reachable_bounds[OF rk] this] lev
    show "vibrationState ?sk = 1" and "pin (ins ! Suc k) \<noteq> pin (ins ! k)"
      by (simp_all add: digitalRead_neq)
  }
  {
    fix k
    assume "Suc k < length ins"
    then show "vibrationCounter
             (checkForVibration_edge (fst (run cfg s (take (Suc k) ins)))
                (pin (ins ! Suc k)) t) =
           vibrationCounter (fst (run cfg s (take (Suc k) ins))) +
             (if vibrationState (fst (run cfg s (take (Suc k) ins))) = 1 \<and>
                 pin (ins ! Suc k) \<noteq> pin (ins ! k)
              then 1 else 0)"
      by (rule run_edge_count[OF r])
  }
qed

theorem C3_edge_tracking_witness:
  "setup_init 0 \<in> reachable threshold5 \<and>
   digitalRead True \<noteq> previousVibrationValue (setup_init 0) \<and>
   checkForVibration_edge (setup_init 0) True 1000 =
     \<lparr>vibrationState = 1, lastVibrationStateChange = 1000, previousVibrationValue = 1,
      startedTime = 0, vibrationCounter = 1\<rparr> \<and>
   digitalRead False = previousVibrationValue (setup_init 0) \<and>
   checkForVibration_edge (setup_init 0) False 1000 = setup_init 0 \<and>
   vibrationCounter (setup_init 0)
     < vibrationCounter (fst (loop threshold5 (setup_init 0) (at_time True 1000))) \<and>
   vibrationCounter (fst (loop threshold5 (setup_init 0) (at_time True 1000))) = 1 \<and>
   Suc 0 < length six_edges \<and>
   vibrationCounter (fst (run threshold5 (setup_init 0) (take (Suc 0) six_edges)))
     < vibrationCounter (fst (run threshold5 (setup_init 0) (take (Suc (Suc 0)) six_edges))) \<and>
   vibrationState (fst (run threshold5 (setup_init 0) (take (Suc 0) six_edges))) = 1 \<and>
   pin (six_edges ! Suc 0) \<noteq> pin (six_edges ! 0)"
proof -
  have r: "setup_init 0 \<in> reachable threshold5"
    by (rule reachable.init)
  note T = C3_edge_tracking[of threshold5 True 1000 "at_time True 1000" six_edges,
      THEN bspec, OF r]
  note F = C3_edge_tracking[of threshold5 False 1000 "at_time True 1000" six_edges,
      THEN bspec, OF r]
  have e: "digitalRead True \<noteq> previousVibrationValue (setup_init 0)"
    and n: "digitalRead False = previousVibrationValue (setup_init 0)"
    by (simp_all add: setup_init_def digitalRead_def)
  have g: "vibrationCounter (setup_init 0)
     < vibrationCounter (fst (loop threshold5 (setup_init 0) (at_time True 1000)))"
    by (simp add: eval_defs)
  have k: "Suc 0 < length six_edges \<and>
   vibrationCounter (fst (run threshold5 (setup_init 0) (take (Suc 0) six_edges)))
     < vibrationCounter (fst (run threshold5 (setup_init 0) (take (Suc (Suc 0)) six_edges)))"
    by (simp add: eval_defs)
  from T e have t1: "lastVibrationStateChange (checkForVibration_edge (setup_init 0) True 1000) = 1000"
    by blast
  from F n have t2: "checkForVibration_edge (setup_init 0) False 1000 = setup_init 0"
    by blast
  from T g have t3: "vibrationCounter (fst (loop threshold5 (setup_init 0) (at_time True 1000)))
      = vibrationCounter (setup_init 0) + 1"
    by blast
  from T k have t4: "vibrationState (fst (run threshold5 (setup_init 0) (take (Suc 0) six_edges))) = 1 \<and>
      pin (six_edges ! Suc 0) \<noteq> pin (six_edges ! 0)"
    by blast
  have v: "checkForVibration_edge (setup_init 0) True 1000 =
     \<lparr>vibrationState = 1, lastVibrationStateChange = 1000, previousVibrationValue = 1,
      startedTime = 0, vibrationCounter = 1\<rparr>"
    by (simp add: eval_defs)
  from t3 have t3': "vibrationCounter (fst (loop threshold5 (setup_init 0) (at_time True 1000))) = 1"
    by (simp add: setup_init_def)
  from r e n g k t1 t2 t3' t4 v show ?thesis
    by blast
qed

text \<open>
  C4.  In a pass begun in Accumulating, if the time elapsed since the last sensor
  transition (the one of this pass, if there is one) strictly exceeds
  \<open>VIBRATION_COUNTER_RESET_DELAY_SECONDS * 1000\<close> milliseconds at both readings of the
  clock at line 154, the count is \<open>0\<close> after the pass, the detector is still
  Accumulating and no event is emitted (for a threshold that is not negative).  Outside
  Accumulating the check does nothing, whatever the count and the time: the stale-counter
  block returns the state as it is, and \<open>checkForVibration\<close> is its edge block alone.
  With threshold \<open>5\<close>, five alternating readings after \<open>setup()\<close> start no cycle, and
  a further pass without an edge, later than the reset delay after the fifth edge,
  leaves the detector Accumulating with count \<open>0\<close>, no event having been emitted.
\<close>

theorem C4_stale_counter_reset:
  "(\<forall>s \<in> reachable cfg.
      vibrationState s = 1 \<and> 0 \<le> VIBRATION_MONITORING_THRESHOLD cfg \<and>
      millis_of_seconds (VIBRATION_COUNTER_RESET_DELAY_SECONDS cfg)
        < millis_reset_test i
            - (if digitalRead (pin i) \<noteq> previousVibrationValue s then millis_edge i
               else lastVibrationStateChange s) \<and>
      millis_of_seconds (VIBRATION_COUNTER_RESET_DELAY_SECONDS cfg)
        < millis_reset_result i
            - (if digitalRead (pin i) \<noteq> previousVibrationValue s then millis_edge i
               else lastVibrationStateChange s) \<longrightarrow>
        vibrationCounter (fst (loop cfg s i)) = 0 \<and>
        vibrationState (fst (loop cfg s i)) = 1 \<and>
        snd (loop cfg s i) = []) \<and>
   (vibrationState m \<noteq> 1 \<longrightarrow>
      checkForVibration_reset cfg m t_test t_result = m \<and>
      checkForVibration cfg m high t_edge t_test t_result = checkForVibration_edge m high t_edge) \<and>
   (VIBRATION_MONITORING_THRESHOLD cfg = 5 \<and> length ins = 5 \<and> alternating False ins \<and>
    pin idle = pin (last ins) \<and>
    millis_of_seconds (VIBRATION_COUNTER_RESET_DELAY_SECONDS cfg)
      < millis_reset_test idle - millis_edge (last ins) \<and>
    millis_of_seconds (VIBRATION_COUNTER_RESET_DELAY_SECONDS cfg)
      < millis_reset_result idle - millis_edge (last ins) \<longrightarrow>
      (\<forall>k \<le> 5.
          vibrationState (fst (run cfg (setup_init t0) (take k ins))) = 1 \<and>
          snd (run cfg (setup_init t0) (take k ins)) = []) \<and>
      vibrationState (fst (run cfg (setup_init t0) (ins @ [idle]))) = 1 \<and>
      vibrationCounter (fst (run cfg (setup_init t0) (ins @ [idle]))) = 0 \<and>
      snd (run cfg (setup_init t0) (ins @ [idle])) = [])"
proof (intro conjI ballI impI)
  fix s
  assume "s \<in> reachable cfg"
    and a: "vibrationState s = 1 \<and> 0 \<le> VIBRATION_MONITORING_THRESHOLD cfg \<and>
      millis_of_seconds (VIBRATION_COUNTER_RESET_DELAY_SECONDS cfg)
        < millis_reset_test i
            - (if digitalRead (pin i) \<noteq> previousVibrationValue s then millis_edge i
               else lastVibrationStateChange s) \<and>
      millis_of_seconds (VIBRATION_COUNTER_RESET_DELAY_SECONDS cfg)
        < millis_reset_result i
            - (if digitalRead (pin i) \<noteq> previousVibrationValue s then millis_edge i
               else lastVibrationStateChange s)"
  have "vibrationCounter (fst (loop cfg s i)) = 0 \<and> vibrationState (fst (loop cfg s i)) = 1 \<and>
         snd (loop cfg s i) = []"
    by (rule reset_step) (use a in \<open>simp_all add: edge_timestamp\<close>)
  then show "vibrationCounter (fst (loop cfg s i)) = 0"
    and "vibrationState (fst (loop cfg s i)) = 1"
    and "snd (loop cfg s i) = []"
    by simp_all
next
  assume "vibrationState m \<noteq> 1"
  then show "checkForVibration_reset cfg m t_test t_result = m"
    and "checkForVibration cfg m high t_edge t_test t_result = checkForVibration_edge m high t_edge"
    by (rule no_reset_outside_accumulating)+
next
  assume a: "VIBRATION_MONITORING_THRESHOLD cfg = 5 \<and> length ins = 5 \<and> alternating False ins \<and>
    pin idle = pin (last ins) \<and>
    millis_of_seconds (VIBRATION_COUNTER_RESET_DELAY_SECONDS cfg)
      < millis_reset_test idle - millis_edge (last ins) \<and>
    millis_of_seconds (VIBRATION_COUNTER_RESET_DELAY_SECONDS cfg)
      < millis_reset_result idle - millis_edge (last ins)"
  then have ne: "ins \<noteq> []"
    by auto
  have "(\<forall>k \<le> 5.
            vibrationState (fst (run cfg (setup_init t0) (take k ins))) = 1 \<and>
            snd (run cfg (setup_init t0) (take k ins)) = []) \<and>
         vibrationState (fst (run cfg (setup_init t0) (ins @ [idle]))) = 1 \<and>
         vibrationCounter (fst (run cfg (setup_init t0) (ins @ [idle]))) = 0 \<and>
         snd (run cfg (setup_init t0) (ins @ [idle])) = []"
    by (rule scenario_stale) (use a ne in \<open>simp_all add: last_map\<close>)
  then show "\<forall>k \<le> 5.
          vibrationState (fst (run cfg (setup_init t0) (take k ins))) = 1 \<and>
          snd (run cfg (setup_init t0) (take k ins)) = []"
    and "vibrationState (fst (run cfg (setup_init t0) (ins @ [idle]))) = 1"
    and "vibrationCounter (fst (run cfg (setup_init t0) (ins @ [idle]))) = 0"
    and "snd (run cfg (setup_init t0) (ins @ [idle])) = []"
    by simp_all
qed

theorem C4_stale_counter_reset_witness:
  "fst (run threshold5 (setup_init 0) (take 5 six_edges)) \<in> reachable threshold5 \<and>
   vibrationState (fst (run threshold5 (setup_init 0) (take 5 six_edges))) = 1 \<and>
   vibrationCounter (fst (run threshold5 (setup_init 0) (take 5 six_edges))) = 5 \<and>
   millis_of_seconds (VIBRATION_COUNTER_RESET_DELAY_SECONDS threshold5) < 185001 - 5000 \<and>
   millis_of_seconds (VIBRATION_COUNTER_RESET_DELAY_SECONDS threshold5) < 185002 - 5000 \<and>
   loop threshold5 (fst (run threshold5 (setup_init 0) (take 5 six_edges)))
       ((at_time True 185001)\<lparr>millis_reset_result := 185002\<rparr>) =
     (\<lparr>vibrationState = 1, lastVibrationStateChange = 5000, previousVibrationValue = 1,
       startedTime = 0, vibrationCounter = 0\<rparr>, []) \<and>
   checkForVibration_reset threshold5
       \<lparr>vibrationState = 0, lastVibrationStateChange = 5000, previousVibrationValue = 1,
        startedTime = 0, vibrationCounter = 7\<rparr> 999998 999999 =
     \<lparr>vibrationState = 0, lastVibrationStateChange = 5000, previousVibrationValue = 1,
      startedTime = 0, vibrationCounter = 7\<rparr> \<and>
   alternating False (take 5 six_edges) \<and>
   run threshold5 (setup_init 0)
       (take 5 six_edges @ [(at_time True 185001)\<lparr>millis_reset_result := 185002\<rparr>]) =
     (\<lparr>vibrationState = 1, lastVibrationStateChange = 5000, previousVibrationValue = 1,
       startedTime = 0, vibrationCounter = 0\<rparr>, [])"
proof -
  let ?s5 = "fst (run threshold5 (setup_init 0) (take 5 six_edges))"
  let ?idle = "(at_time True 185001)\<lparr>millis_reset_result := 185002\<rparr>"
  let ?m = "\<lparr>vibrationState = 0, lastVibrationStateChange = 5000, previousVibrationValue = 1,
        startedTime = 0, vibrationCounter = 7\<rparr>"
  have r5: "?s5 \<in> reachable threshold5"
    by (rule run_reachable[OF reachable.init])
  have f5: "vibrationState ?s5 = 1 \<and> vibrationCounter ?s5 = 5"
    by (simp add: five_edges_state)
  have d: "millis_of_seconds (VIBRATION_COUNTER_RESET_DELAY_SECONDS threshold5) < 185001 - 5000 \<and>
      millis_of_seconds (VIBRATION_COUNTER_RESET_DELAY_SECONDS threshold5) < 185002 - 5000"
    by (simp add: threshold5_def millis_of_seconds_def)
  have h1: "vibrationState ?s5 = 1 \<and> 0 \<le> VIBRATION_MONITORING_THRESHOLD threshold5 \<and>
      millis_of_seconds (VIBRATION_COUNTER_RESET_DELAY_SECONDS threshold5)
        < millis_reset_test ?idle
            - (if digitalRead (pin ?idle) \<noteq> previousVibrationValue ?s5 then millis_edge ?idle
               else lastVibrationStateChange ?s5) \<and>
      millis_of_seconds (VIBRATION_COUNTER_RESET_DELAY_SECONDS threshold5)
        < millis_reset_result ?idle
            - (if digitalRead (pin ?idle) \<noteq> previousVibrationValue ?s5 then millis_edge ?idle
               else lastVibrationStateChange ?s5)"
    by (simp add: five_edges_state eval_defs)
  have h2: "vibrationState ?m \<noteq> 1"
    by simp
  have h3: "VIBRATION_MONITORING_THRESHOLD threshold5 = 5 \<and> length (take 5 six_edges) = 5 \<and>
      alternating False (take 5 six_edges) \<and>
      pin ?idle = pin (last (take 5 six_edges)) \<and>
      millis_of_seconds (VIBRATION_COUNTER_RESET_DELAY_SECONDS threshold5)
        < millis_reset_test ?idle - millis_edge (last (take 5 six_edges)) \<and>
      millis_of_seconds (VIBRATION_COUNTER_RESET_DELAY_SECONDS threshold5)
        < millis_reset_result ?idle - millis_edge (last (take 5 six_edges))"
    by (simp add: eval_defs)
  note T = C4_stale_counter_reset[of threshold5 ?idle ?m 999998 999999 False 0
      "take 5 six_edges" ?idle 0]
  note T1 = T[THEN conjunct1, rule_format, OF r5 h1]
  note T2 = T[THEN conjunct2, THEN conjunct1, rule_format, OF h2, THEN conjunct1]
  note T3 = T[THEN conjunct2, THEN conjunct2, rule_format, OF h3]
  have l: "loop threshold5 ?s5 ?idle =
     (\<lparr>vibrationState = 1, lastVibrationStateChange = 5000, previousVibrationValue = 1,
       startedTime = 0, vibrationCounter = 0\<rparr>, [])"
    by (simp add: five_edges_state eval_defs)
  have "run threshold5 (setup_init 0) (take 5 six_edges @ [?idle]) =
      (fst (loop threshold5 ?s5 ?idle),
       snd (run threshold5 (setup_init 0) (take 5 six_edges)) @ snd (loop threshold5 ?s5 ?idle))"
    by (simp add: run_append split_beta)
  moreover from T3 have "snd (run threshold5 (setup_init 0) (take 5 (take 5 six_edges))) = []"
    by blast
  then have "snd (run threshold5 (setup_init 0) (take 5 six_edges)) = []"
    by simp
  ultimately have w: "run threshold5 (setup_init 0) (take 5 six_edges @ [?idle]) =
     (\<lparr>vibrationState = 1, lastVibrationStateChange = 5000, previousVibrationValue = 1,
       startedTime = 0, vibrationCounter = 0\<rparr>, [])"
    using l by simp
  from h3 have al: "alternating False (take 5 six_edges)"
    by blast
  from r5 f5 d T1 T2 al l w show ?thesis
    by blast
qed



text \<open>
  C7.  For either lifecycle event, the notification procedure handles the two channels in
  their order, \<open>event\<close> then \<open>event2\<close>, each exactly once and in this sequence: \<open>connect()\<close>
  is repeated (with a dot printed after each refusal) until it answers \<open>true\<close>, then the
  event's message is set in slot \<open>1\<close>, then (after \<open>delay(100)\<close>) it is posted.  Refusals
  only lengthen the run; there is no error result: the procedure fails to return exactly
  when one of the channels refuses for ever.
\<close>

theorem C7_notification_sequence:
  "(net event n1 \<and> (\<forall>j<n1. \<not> net event j) \<and> net event2 n2 \<and> (\<forall>j<n2. \<not> net event2 j) \<longrightarrow>
      notify e net =
        Some (refused event n1 @
              [Connect event True, SetValue event 1 (message e), Delay 100, Post event] @
              refused event2 n2 @
              [Connect event2 True, SetValue event2 1 (message e), Delay 100, Post event2])) \<and>
   (notify e net = None \<longleftrightarrow> (\<forall>n. \<not> net event n) \<or> (\<forall>n. \<not> net event2 n))"
proof (intro conjI impI)
  assume a: "net event n1 \<and> (\<forall>j<n1. \<not> net event j) \<and> net event2 n2 \<and> (\<forall>j<n2. \<not> net event2 j)"
  show "notify e net =
        Some (refused event n1 @
              [Connect event True, SetValue event 1 (message e), Delay 100, Post event] @
              refused event2 n2 @
              [Connect event2 True, SetValue event2 1 (message e), Delay 100, Post event2])"
  proof (cases e)
    case CycleStarted
    with a show ?thesis by (simp add: started_returns[of net n1 n2])
  next
    case CycleStopped
    with a show ?thesis by (simp add: stopped_returns[of net n1 n2])
  qed
next
  show "notify e net = None \<longleftrightarrow> (\<forall>n. \<not> net event n) \<or> (\<forall>n. \<not> net event2 n)"
    by (rule notify_blocks)
qed

theorem C7_notification_sequence_witness:
  "flaky_net event 2 \<and> \<not> flaky_net event 0 \<and> \<not> flaky_net event 1 \<and>
   flaky_net event2 1 \<and> \<not> flaky_net event2 0 \<and>
   notify CycleStopped flaky_net =
     Some [Connect event False, SerialPrint ''.'', Connect event False, SerialPrint ''.'',
           Connect event True, SetValue event 1 ''Washer is done.'', Delay 100, Post event,
           Connect event2 False, SerialPrint ''.'',
           Connect event2 True, SetValue event2 1 ''Washer is done.'', Delay 100, Post event2] \<and>
   (\<forall>n. \<not> dead_net event2 n) \<and> notify CycleStarted dead_net = None"
proof -
  have h: "flaky_net event 2 \<and> (\<forall>j<2. \<not> flaky_net event j) \<and>
      flaky_net event2 1 \<and> (\<forall>j<1. \<not> flaky_net event2 j)"
    by (simp add: flaky_net_def)
  have d: "\<forall>n. \<not> dead_net event2 n"
    by (simp add: dead_net_def)
  note T1 = C7_notification_sequence[of flaky_net 2 1 CycleStopped, THEN conjunct1, rule_format, OF h]
  note T2 = C7_notification_sequence[of dead_net 0 0 CycleStarted, THEN conjunct2]
  from d T2 have n: "notify CycleStarted dead_net = None"
    by blast
  have two: "replicate 2 x = [x, x]" for x :: "io list"
    by (simp add: numeral_2_eq_2)
  have f: "\<not> flaky_net event 0 \<and> \<not> flaky_net event 1 \<and> \<not> flaky_net event2 0"
    by (simp add: flaky_net_def)
  from h d n f T1 show ?thesis
    by (simp add: refused_def STOPPED_MESSAGE_def two)
qed

text \<open>
  C8.  After \<open>setup()\<close> and before any pass of \<open>loop()\<close> the detector is Accumulating
  (\<open>vibrationState = 1\<close>), the vibration count is \<open>0\<close>, the stored sensor level is
  \<open>LOW\<close> and the last-transition timestamp is the value \<open>millis()\<close> had during
  \<open>setup()\<close>.  In every reachable state exactly one of the two detector states is
  active: \<open>vibrationState\<close> is \<open>1\<close> (Accumulating) or \<open>0\<close> (MonitoringForStop), never
  anything else.
\<close>

theorem C8_initial_state:
  "vibrationState (setup_init t0) = 1 \<and>
   vibrationCounter (setup_init t0) = 0 \<and>
   previousVibrationValue (setup_init t0) = digitalRead False \<and>
   lastVibrationStateChange (setup_init t0) = t0 \<and>
   (\<forall>s \<in> reachable cfg.
      (vibrationState s = 1 \<and> vibrationState s \<noteq> 0) \<or>
      (vibrationState s = 0 \<and> vibrationState s \<noteq> 1))"
proof -
  have "(vibrationState s = 1 \<and> vibrationState s \<noteq> 0) \<or>
        (vibrationState s = 0 \<and> vibrationState s \<noteq> 1)"
    if "s \<in> reachable cfg" for s
    using reachable_bounds[OF that] by (auto simp: bounds_def)
  then show ?thesis
    by (simp add: setup_init_def digitalRead_def)
qed

theorem C8_initial_state_witness:
  "fst (run threshold5 (setup_init 0) six_edges) \<in> reachable threshold5 \<and>
   vibrationState (fst (run threshold5 (setup_init 0) six_edges)) = 0 \<and>
   vibrationState (fst (run threshold5 (setup_init 0) six_edges)) \<noteq> 1 \<and>
   setup_init 7 \<in> reachable threshold5 \<and>
   vibrationState (setup_init 7) = 1 \<and> vibrationState (setup_init 7) \<noteq> 0 \<and>
   lastVibrationStateChange (setup_init 7) = 7"
proof -
  have r: "fst (run threshold5 (setup_init 0) six_edges) \<in> reachable threshold5"
    by (rule run_reachable[OF reachable.init])
  have i: "setup_init 7 \<in> reachable threshold5"
    by (rule reachable.init)
  from r i C8_initial_state[of 7 threshold5] show ?thesis
    by (simp add: six_edges_state)
qed

text \<open>
  C9.  Between two passes of \<open>loop()\<close>, whenever the detector is in MonitoringForStop
  (\<open>vibrationState = 0\<close>) the vibration count is \<open>0\<close>: the count is zeroed on entry
  (line 175) and, while in that state, \<open>checkForVibration\<close> neither increments it
  (line 148) nor runs the stale-counter check on it (line 154).
\<close>

theorem C9_monitoring_count_zero:
  "s \<in> reachable cfg \<Longrightarrow> vibrationState s = 0 \<Longrightarrow>
     vibrationCounter s = 0 \<and>
     vibrationCounter (checkForVibration cfg s high t1 t2 t3) = 0 \<and>
     vibrationCounter (fst (loop cfg s i)) = 0"
proof -
  assume r: "s \<in> reachable cfg" and z: "vibrationState s = 0"
  from reachable_bounds[OF r] z have c: "vibrationCounter s = 0"
    by (simp add: bounds_def)
  from z c have "vibrationCounter (checkForVibration cfg s high t1 t2 t3) = 0"
    by (simp add: checkForVibration_def checkForVibration_edge_def
        checkForVibration_reset_def Let_def)
  moreover from z c have "vibrationCounter (fst (loop cfg s i)) = 0"
    by (simp add: tick_defs Let_def)
  ultimately show ?thesis using c by simp
qed

theorem C9_monitoring_count_zero_witness:
  "fst (run threshold5 (setup_init 0) six_edges) \<in> reachable threshold5 \<and>
   vibrationState (fst (run threshold5 (setup_init 0) six_edges)) = 0 \<and>
   vibrationCounter (fst (run threshold5 (setup_init 0) six_edges)) = 0 \<and>
   vibrationCounter
     (fst (loop threshold5 (fst (run threshold5 (setup_init 0) six_edges))
        (at_time True 7000))) = 0"
proof -
  have r: "fst (run threshold5 (setup_init 0) six_edges) \<in> reachable threshold5"
    by (rule run_reachable[OF reachable.init])
  have z: "vibrationState (fst (run threshold5 (setup_init 0) six_edges)) = 0"
    by (simp add: six_edges_state)
  from r z C9_monitoring_count_zero[OF r z, of True 7000 7000 7000 "at_time True 7000"]
  show ?thesis by simp
qed

text \<open>
  C10.  In every execution from the state after \<open>setup()\<close> the emitted lifecycle events
  alternate strictly: the first event, if any, is \<open>CycleStarted\<close>; every \<open>CycleStopped\<close>
  comes directly after a \<open>CycleStarted\<close>; no two consecutive events are equal.
\<close>

theorem C10_events_alternate:
  "(snd (run cfg (setup_init t0) ins) \<noteq> [] \<longrightarrow>
      hd (snd (run cfg (setup_init t0) ins)) = CycleStarted) \<and>
   (\<forall>k < length (snd (run cfg (setup_init t0) ins)).
      snd (run cfg (setup_init t0) ins) ! k = CycleStopped \<longrightarrow>
        0 < k \<and> snd (run cfg (setup_init t0) ins) ! (k - 1) = CycleStarted) \<and>
   (\<forall>k. Suc k < length (snd (run cfg (setup_init t0) ins)) \<longrightarrow>
      snd (run cfg (setup_init t0) ins) ! k \<noteq> snd (run cfg (setup_init t0) ins) ! Suc k)"
proof -
  let ?evs = "snd (run cfg (setup_init t0) ins)"
  have "next_event (setup_init t0) = CycleStarted"
    by (simp add: next_event_def setup_init_def)
  with run_alternates[of "setup_init t0" cfg ins] have alt: "alternates CycleStarted ?evs"
    by simp
  have first: "?evs \<noteq> [] \<longrightarrow> hd ?evs = CycleStarted"
    using alternates_hd[OF alt] by simp
  have succ: "?evs ! Suc k = other (?evs ! k)" if "Suc k < length ?evs" for k
    by (rule alternates_nth[OF alt that])
  have differ: "\<forall>k. Suc k < length ?evs \<longrightarrow> ?evs ! k \<noteq> ?evs ! Suc k"
    using succ other_neq by metis
  have stopped: "0 < k \<and> ?evs ! (k - 1) = CycleStarted"
    if "k < length ?evs" "?evs ! k = CycleStopped" for k
  proof (cases k)
    case 0
    with that first show ?thesis by (cases ?evs) auto
  next
    case (Suc m)
    with that succ[of m] have "other (?evs ! m) = CycleStopped" by simp
    then have "?evs ! m = CycleStarted" by (cases "?evs ! m") simp_all
    with Suc show ?thesis by simp
  qed
  from first stopped differ show ?thesis by blast
qed

theorem C10_events_alternate_witness:
  "snd (run threshold5 (setup_init 0)
          (six_edges @ [at_time False 156001])) =
     [CycleStarted, CycleStopped] \<and>
   hd (snd (run threshold5 (setup_init 0)
          (six_edges @ [at_time False 156001]))) = CycleStarted \<and>
   (1 :: nat) < length (snd (run threshold5 (setup_init 0)
          (six_edges @ [at_time False 156001]))) \<and>
   snd (run threshold5 (setup_init 0)
          (six_edges @ [at_time False 156001])) ! 1 = CycleStopped \<and>
   snd (run threshold5 (setup_init 0)
          (six_edges @ [at_time False 156001])) ! (1 - 1) = CycleStarted"
proof -
  let ?evs = "snd (run threshold5 (setup_init 0)
          (six_edges @ [at_time False 156001]))"
  have v: "?evs = [CycleStarted, CycleStopped]"
    by (simp add: eval_defs)
  note T = C10_events_alternate[of threshold5 0 "six_edges @ [at_time False 156001]"]
  from v have ne: "?evs \<noteq> []" and len: "(1 :: nat) < length ?evs" and st: "?evs ! 1 = CycleStopped"
    by simp_all
  from T ne have h: "hd ?evs = CycleStarted"
    by blast
  from T len st have p: "?evs ! (1 - 1) = CycleStarted"
    by blast
  from v h len st p show ?thesis
    by blast
qed

end
